theory Spec2Isabelle
  imports Main
begin

section \<open>Values, stores and the calls a component makes on them\<close>

text \<open>
  The adapter is untyped at run time: a store holds any JavaScript value, and the setter
  of \<open>useStore\<close> looks at \<open>typeof\<close> of its argument. Values are therefore one datatype.
  Functions and plain objects are compared by reference, so they carry an identity only.
  A collection is an array or an object with named properties; a property name that is a
  canonical array index is written \<open>Index n\<close>, any other name \<open>Name s\<close>. Collections
  handed to a hook are values here: React props are not mutated in place.
\<close>

datatype key = Index nat | Name string

datatype 'a collection = Array "'a list" | Object "(key \<times> 'a) list"

text \<open>
  \<open>entries\<close> is \<open>Object.entries\<close>: the own properties of a collection, in order.
  \<open>property c k\<close> is \<open>c[k]\<close> when that is an element of the collection; anything else
  \<open>c[k]\<close> may be (\<open>undefined\<close>, the \<open>length\<close> of an array) is \<open>None\<close>. An object has
  each property name once.
\<close>

fun entries :: "'a collection \<Rightarrow> (key \<times> 'a) list" where
  "entries (Array xs) = zip (map Index [0..<length xs]) xs"
| "entries (Object kvs) = kvs"

fun property :: "'a collection \<Rightarrow> key \<Rightarrow> 'a option" where
  "property (Array xs) (Index i) = (if i < length xs then Some (xs ! i) else None)"
| "property (Array xs) (Name n) = None"
| "property (Object kvs) k = map_of kvs k"

fun well_formed :: "'a collection \<Rightarrow> bool" where
  "well_formed (Array xs) = True"
| "well_formed (Object kvs) = distinct (map fst kvs)"

datatype jsval =
    Undefined
  | Null
  | Boolean bool
  | Number int
  | Text string
  | Closure nat
  | Instance nat
  | Bundle "jsval collection"

fun typeof :: "jsval \<Rightarrow> string" where
  "typeof Undefined = ''undefined''"
| "typeof Null = ''object''"
| "typeof (Boolean b) = ''boolean''"
| "typeof (Number n) = ''number''"
| "typeof (Text s) = ''string''"
| "typeof (Closure f) = ''function''"
| "typeof (Instance r) = ''object''"
| "typeof (Bundle c) = ''object''"

fun invocable :: "jsval \<Rightarrow> bool" where
  "invocable (Closure f) = True"
| "invocable v = False"

text \<open>
  A store is known to the adapter by reference only (\<open>!==\<close> on the store object):
  \<open>Store n\<close> is a store made by the application, \<open>Derived k\<close> the \<open>k\<close>-th store returned
  by \<open>makeDerivedStore\<close>. Every call of \<open>store.subscribe\<close> returns a fresh unsubscribe
  handle; the handle is identified by the number of the subscription it belongs to.
\<close>

datatype store_ref = Store nat | Derived nat

type_synonym sub_id = nat

datatype call =
    Subscribe store_ref sub_id
  | Unsubscribe store_ref sub_id
  | StoreSet store_ref jsval
  | StoreUpdate store_ref jsval

text \<open>
  Modelled from the spec: the Derived Store Factory. \<open>makeDerivedStore\<close> belongs to the
  store library (universal-stores), which is not part of this repository; the spec gives
  its contract: from a fixed collection of stores and a combining function it makes a
  new read-only store whose value is the combining function applied to the collection of
  the input stores' current values, array for array and object for object.
\<close>

record derived_store =
  inputs :: "store_ref collection"
  combiner :: "jsval \<Rightarrow> jsval"

text \<open>
  What the store library holds for one component: every call it has received on a store
  or on an unsubscribe handle, oldest first, the next handle number, and the derived
  stores it has made.
\<close>

record world =
  calls :: "call list"
  next_sub :: sub_id
  derived_stores :: "nat \<Rightarrow> derived_store option"
  next_derived :: nat

type_synonym contents = "store_ref \<Rightarrow> jsval"

definition makeDerivedStore ::
  "store_ref collection \<Rightarrow> (jsval \<Rightarrow> jsval) \<Rightarrow> 'a world_scheme \<Rightarrow> store_ref \<times> 'a world_scheme" where
  "makeDerivedStore c f w =
     (let k = next_derived w
      in (Derived k, w\<lparr>derived_stores := (derived_stores w)(k \<mapsto> \<lparr>inputs = c, combiner = f\<rparr>),
                       next_derived := Suc k\<rparr>))"

definition derived_content :: "contents \<Rightarrow> derived_store \<Rightarrow> jsval" where
  "derived_content c d = combiner d (Bundle (map_collection c (inputs d)))"

text \<open>
  The current value of a store: \<open>c\<close> for the application's stores, the combination for a
  derived store.
\<close>

definition content :: "contents \<Rightarrow> 'a world_scheme \<Rightarrow> store_ref \<Rightarrow> jsval" where
  "content c w s =
     (case s of
        Store n \<Rightarrow> c s
      | Derived k \<Rightarrow> (case derived_stores w k of None \<Rightarrow> Undefined | Some d \<Rightarrow> derived_content c d))"

text \<open>
  Modelled from the spec: the Store Contract. The store library is not part of this
  repository; the spec gives the contract of a store: \<open>subscribe\<close> registers the
  listener and calls it once with the current value before returning, \<open>set\<close> and
  \<open>update\<close> deliver the new value to every registered listener, in order, if and only
  if it fails the store's equality check against the current value, and a released
  listener is never called again.

  The store's registry is read off the calls it has received: \<open>subscriptions cs s\<close>
  are the handles \<open>s.subscribe\<close> has returned, \<open>releases cs s\<close> the handles of \<open>s\<close>
  that have been called (once per call), and \<open>subscribers cs s\<close> the subscriptions made
  on \<open>s\<close> whose handle has not been called.
\<close>

definition subscriptions :: "call list \<Rightarrow> store_ref \<Rightarrow> sub_id list" where
  "subscriptions cs s = [sid. Subscribe s' sid \<leftarrow> cs, s' = s]"

definition releases :: "call list \<Rightarrow> store_ref \<Rightarrow> sub_id list" where
  "releases cs s = [sid. Unsubscribe s' sid \<leftarrow> cs, s' = s]"

definition subscribers :: "call list \<Rightarrow> store_ref \<Rightarrow> sub_id list" where
  "subscribers cs s = [sid \<leftarrow> subscriptions cs s. sid \<notin> set (releases cs s)]"

section \<open>useReadonlyStore (src/lib/hooks.ts)\<close>

text \<open>
  \<open>closure\<close> is the environment of one listener \<open>(v) => {...}\<close>: the wrapper object
  \<open>wrappedValue\<close> created next to it and the local flag \<open>firstSubscriberCall\<close>.
  \<open>store_context\<close> is the object kept in \<open>contextRef.current\<close>; its \<open>wrappedValue\<close> field
  points to the wrapper of the listener registered by the same subscription, so the
  handle number finds both.
\<close>

record closure =
  wrappedValue :: jsval
  firstSubscriberCall :: bool

record store_context =
  store :: store_ref
  unsubscribe :: sub_id

text \<open>
  The state one component instance reaches through the hook: the two React cells
  (\<open>useState(0)\<close>, \<open>useRef(undefined)\<close>), the listener closures created so far, and a
  ghost counter of the \<open>setRerenderFlag\<close> calls, each of which asks React for a re-render.
\<close>

record hook_state = world +
  rerenderFlag :: nat
  contextRef :: "store_context option"
  closures :: "sub_id \<Rightarrow> closure option"
  scheduled :: nat

definition initial :: hook_state where
  "initial = \<lparr>calls = [], next_sub = 0, derived_stores = (\<lambda>_. None), next_derived = 0,
              rerenderFlag = 0, contextRef = None, closures = (\<lambda>_. None), scheduled = 0\<rparr>"

definition MAX_SAFE_INTEGER :: nat where
  "MAX_SAFE_INTEGER = 9007199254740991"

text \<open>The updater handed to \<open>setRerenderFlag\<close>: \<open>(r) => (r + 1) % Number.MAX_SAFE_INTEGER\<close>.\<close>

definition next_flag :: "nat \<Rightarrow> nat" where
  "next_flag r = (r + 1) mod MAX_SAFE_INTEGER"

definition setRerenderFlag :: "(nat \<Rightarrow> nat) \<Rightarrow> 'a hook_state_scheme \<Rightarrow> 'a hook_state_scheme" where
  "setRerenderFlag f h = h\<lparr>rerenderFlag := f (rerenderFlag h), scheduled := Suc (scheduled h)\<rparr>"

text \<open>
  The listener of subscription \<open>sid\<close>, called by the store with \<open>v\<close>:
  it writes the wrapper, returns early on its first call and asks React for a re-render
  on every later one.
\<close>

definition listener :: "sub_id \<Rightarrow> jsval \<Rightarrow> 'a hook_state_scheme \<Rightarrow> 'a hook_state_scheme" where
  "listener sid v h =
     (case closures h sid of
        None \<Rightarrow> h
      | Some c \<Rightarrow>
          (if firstSubscriberCall c
           then h\<lparr>closures := (closures h)(sid \<mapsto> \<lparr>wrappedValue = v, firstSubscriberCall = False\<rparr>)\<rparr>
           else setRerenderFlag next_flag
                  (h\<lparr>closures := (closures h)(sid \<mapsto> c\<lparr>wrappedValue := v\<rparr>)\<rparr>)))"

text \<open>Calling the unsubscribe handle kept in a context.\<close>

definition call_unsubscribe :: "store_context \<Rightarrow> 'a hook_state_scheme \<Rightarrow> 'a hook_state_scheme" where
  "call_unsubscribe c h = h\<lparr>calls := calls h @ [Unsubscribe (store c) (unsubscribe c)]\<rparr>"

text \<open>
  \<open>store.subscribe(listener)\<close> as the hook sees it: the call is recorded, a new closure
  with \<open>wrappedValue.value = undefined\<close> and \<open>firstSubscriberCall = true\<close> exists, and the
  store calls the listener with each value of \<open>ds\<close> before \<open>subscribe\<close> returns.
  \<open>ds\<close> is the store's side of the contract: a store that honours it delivers exactly
  its current value, \<open>ds = [v]\<close>.
\<close>

definition subscribe :: "store_ref \<Rightarrow> jsval list \<Rightarrow> 'a hook_state_scheme \<Rightarrow> sub_id \<times> 'a hook_state_scheme" where
  "subscribe s ds h =
     (let sid = next_sub h;
          h1 = h\<lparr>closures := (closures h)(sid \<mapsto> \<lparr>wrappedValue = Undefined, firstSubscriberCall = True\<rparr>),
                 next_sub := Suc sid,
                 calls := calls h @ [Subscribe s sid]\<rparr>
      in (sid, foldl (\<lambda>h' v. listener sid v h') h1 ds))"

text \<open>The value read at the end of the hook: \<open>contextRef.current.wrappedValue.value\<close>.\<close>

definition current_value :: "'a hook_state_scheme \<Rightarrow> jsval" where
  "current_value h =
     (case contextRef h of
        None \<Rightarrow> Undefined
      | Some c \<Rightarrow> (case closures h (unsubscribe c) of None \<Rightarrow> Undefined | Some cl \<Rightarrow> wrappedValue cl))"

text \<open>The test \<open>!contextRef.current || contextRef.current.store !== store\<close>.\<close>

definition must_subscribe :: "store_ref \<Rightarrow> 'a hook_state_scheme \<Rightarrow> bool" where
  "must_subscribe s h = (case contextRef h of None \<Rightarrow> True | Some c \<Rightarrow> store c \<noteq> s)"

definition useReadonlyStore :: "store_ref \<Rightarrow> jsval list \<Rightarrow> 'a hook_state_scheme \<Rightarrow> 'a hook_state_scheme \<times> jsval" where
  "useReadonlyStore s ds h =
     (let h' =
        (if must_subscribe s h
         then (let h1 = (case contextRef h of None \<Rightarrow> h | Some c \<Rightarrow> call_unsubscribe c h);
                   (sid, h2) = subscribe s ds h1
               in h2\<lparr>contextRef := Some \<lparr>store = s, unsubscribe = sid\<rparr>\<rparr>)
         else h)
      in (h', current_value h'))"

text \<open>The cleanup registered by \<open>useEffect(..., [])\<close>: \<open>contextRef.current?.unsubscribe()\<close>.\<close>

definition cleanup :: "'a hook_state_scheme \<Rightarrow> 'a hook_state_scheme" where
  "cleanup h = (case contextRef h of None \<Rightarrow> h | Some c \<Rightarrow> call_unsubscribe c h)"

subsection \<open>The component and its stores over time\<close>









text \<open>The store the component is subscribed to, and what ties the hook's state to the stores.\<close>

definition bound_store :: "'a hook_state_scheme \<Rightarrow> store_ref option" where
  "bound_store h = (case contextRef h of None \<Rightarrow> None | Some ctx \<Rightarrow> Some (store ctx))"


subsection \<open>The life of a component instance\<close>

text \<open>
  A component is mounted by its first render, rendered again any number of times, each
  time with some store and with whatever that store delivers on \<open>subscribe\<close>, and
  unmounted; React then runs the cleanup of the effect.
\<close>

definition renders :: "(store_ref \<times> jsval list) list \<Rightarrow> 'a hook_state_scheme \<Rightarrow> 'a hook_state_scheme" where
  "renders rs h = foldl (\<lambda>h' (s, ds). fst (useReadonlyStore s ds h')) h rs"

definition lifecycle :: "(store_ref \<times> jsval list) list \<Rightarrow> hook_state" where
  "lifecycle rs = cleanup (renders rs initial)"

text \<open>
  React's strict mode (development builds; the repository's tests run under it) calls the
  function of a mounting component twice and keeps the hook cells of the second call
  only: the \<open>useState\<close> and \<open>useRef\<close> cells of the first call are thrown away, while what
  that call did to the outside stays done.
\<close>

definition discard :: "'a hook_state_scheme \<Rightarrow> 'a hook_state_scheme" where
  "discard h = h\<lparr>rerenderFlag := 0, contextRef := None\<rparr>"

definition strict_mount :: "store_ref \<Rightarrow> jsval list \<Rightarrow> hook_state" where
  "strict_mount s ds = fst (useReadonlyStore s ds (discard (fst (useReadonlyStore s ds initial))))"

section \<open>useStore (src/lib/hooks.ts)\<close>

text \<open>
  \<open>useStore\<close> adds one React cell, the one of \<open>useCallback\<close>, to those of
  \<open>useReadonlyStore\<close>. Every render evaluates the arrow function
  \<open>(newValueOrUpdater) => {...}\<close> anew: a new function object, which captures the
  \<open>store\<close> argument of that render. \<open>setters\<close> maps each function object made so far to
  the store it captured.

  React is not part of this repository. Its documented contract for
  \<open>useCallback(fn, deps)\<close> is: on the first render it returns \<open>fn\<close>; on a later render
  it returns the function it returned before if every dependency is the same (\<open>Object.is\<close>)
  as at the render that stored it, and otherwise stores and returns the new \<open>fn\<close>.
\<close>

record store_hook_state = hook_state +
  callbackCell :: "(nat \<times> store_ref list) option"
  setters :: "nat \<Rightarrow> store_ref option"
  next_function :: nat

definition initial_store :: store_hook_state where
  "initial_store = \<lparr>calls = [], next_sub = 0, derived_stores = (\<lambda>_. None), next_derived = 0,
              rerenderFlag = 0, contextRef = None, closures = (\<lambda>_. None), scheduled = 0,
              callbackCell = None, setters = (\<lambda>_. None), next_function = 0\<rparr>"

definition useCallback ::
  "nat \<Rightarrow> store_ref list \<Rightarrow> 'a store_hook_state_scheme \<Rightarrow> 'a store_hook_state_scheme \<times> nat" where
  "useCallback f deps h =
     (case callbackCell h of
        None \<Rightarrow> (h\<lparr>callbackCell := Some (f, deps)\<rparr>, f)
      | Some (g, deps') \<Rightarrow>
          if deps' = deps then (h, g) else (h\<lparr>callbackCell := Some (f, deps)\<rparr>, f))"

definition new_function :: "store_ref \<Rightarrow> 'a store_hook_state_scheme \<Rightarrow> nat \<times> 'a store_hook_state_scheme" where
  "new_function s h =
     (next_function h,
      h\<lparr>setters := (setters h)(next_function h \<mapsto> s), next_function := Suc (next_function h)\<rparr>)"

text \<open>The hook returns the pair \<open>[value, setter]\<close>; the setter is a function object.\<close>

definition useStore ::
  "store_ref \<Rightarrow> jsval list \<Rightarrow> 'a store_hook_state_scheme \<Rightarrow> 'a store_hook_state_scheme \<times> jsval \<times> nat" where
  "useStore s ds h =
     (let (h1, v) = useReadonlyStore s ds h;
          (f, h2) = new_function s h1;
          (h3, setter) = useCallback f [s] h2
      in (h3, v, setter))"

text \<open>
  Calling a function object made by \<open>useStore\<close> with \<open>newValueOrUpdater = a\<close>:
  \<open>if (typeof a === 'function') store.update(a) else store.set(a)\<close>, on the store the
  function captured.
\<close>

definition call_setter :: "nat \<Rightarrow> jsval \<Rightarrow> 'a store_hook_state_scheme \<Rightarrow> 'a store_hook_state_scheme" where
  "call_setter f a h =
     (case setters h f of
        None \<Rightarrow> h
      | Some s \<Rightarrow>
          if typeof a = ''function''
          then h\<lparr>calls := calls h @ [StoreUpdate s a]\<rparr>
          else h\<lparr>calls := calls h @ [StoreSet s a]\<rparr>)"

text \<open>Any number of renders of a component that uses \<open>useStore\<close>, from its mount on.\<close>

definition store_renders :: "(store_ref \<times> jsval list) list \<Rightarrow> store_hook_state" where
  "store_renders rs = foldl (\<lambda>h (s, ds). fst (useStore s ds h)) initial_store rs"

definition setter_ok :: "'a store_hook_state_scheme \<Rightarrow> bool" where
  "setter_ok h =
     (case callbackCell h of
        None \<Rightarrow> True
      | Some (g, deps) \<Rightarrow> g < next_function h \<and> (\<exists>s. deps = [s] \<and> setters h g = Some s))"

section \<open>useReadonlyStores, kept in a ref (unnamed/part_008, lines 314-353)\<close>

text \<open>
  This version takes an array of stores. \<open>previousContextRef.current\<close> holds the array of
  the last render that made a derived store, and that derived store.
\<close>

record stores_context =
  stores :: "store_ref list"
  derived :: store_ref

record stores_hook_state = hook_state +
  previousContextRef :: "stores_context option"

definition initial_stores :: stores_hook_state where
  "initial_stores = \<lparr>calls = [], next_sub = 0, derived_stores = (\<lambda>_. None), next_derived = 0,
              rerenderFlag = 0, contextRef = None, closures = (\<lambda>_. None), scheduled = 0,
              previousContextRef = None\<rparr>"

text \<open>\<open>xs[i]\<close>, which is \<open>undefined\<close> past the end of the array.\<close>

definition element :: "'a list \<Rightarrow> nat \<Rightarrow> 'a option" where
  "element xs i = (if i < length xs then Some (xs ! i) else None)"

text \<open>
  The test \<open>previousContext.stores.length !== stores.length ||
  previousContext.stores.some((s, i) => s !== stores[i])\<close>.
\<close>

definition stores_changed :: "store_ref list \<Rightarrow> store_ref list \<Rightarrow> bool" where
  "stores_changed prev new =
     (length prev \<noteq> length new
      \<or> list_ex (\<lambda>(s, i). Some s \<noteq> element new i) (zip prev [0..<length prev]))"

definition new_context ::
  "store_ref list \<Rightarrow> 'a stores_hook_state_scheme \<Rightarrow> stores_context \<times> 'a stores_hook_state_scheme" where
  "new_context ss h =
     (let (d, h') = makeDerivedStore (Array ss) (\<lambda>x. x) h;
          p = \<lparr>stores = ss, derived = d\<rparr>
      in (p, h'\<lparr>previousContextRef := Some p\<rparr>))"

text \<open>
  The derived store honours the Store Contract: when the inner hook subscribes to it, it
  delivers its current value, the combination of the current values \<open>c\<close> of its inputs.
\<close>

definition useReadonlyStores ::
  "contents \<Rightarrow> store_ref list \<Rightarrow> 'a stores_hook_state_scheme \<Rightarrow> 'a stores_hook_state_scheme \<times> jsval" where
  "useReadonlyStores c ss h =
     (let (p, h1) =
        (case previousContextRef h of
           None \<Rightarrow> new_context ss h
         | Some p0 \<Rightarrow> if stores_changed (stores p0) ss then new_context ss h else (p0, h))
      in useReadonlyStore (derived p) [content c h1 (derived p)] h1)"

text \<open>Any number of renders from the mount on, each with the stores' values at that time.\<close>

definition stores_renders :: "(contents \<times> store_ref list) list \<Rightarrow> stores_hook_state" where
  "stores_renders rs = foldl (\<lambda>h (c, ss). fst (useReadonlyStores c ss h)) initial_stores rs"

definition stores_ok :: "'a stores_hook_state_scheme \<Rightarrow> bool" where
  "stores_ok h =
     (case previousContextRef h of
        None \<Rightarrow> contextRef h = None
      | Some p \<Rightarrow>
          (\<exists>k. derived p = Derived k \<and> k < next_derived h
               \<and> derived_stores h k = Some \<lparr>inputs = Array (stores p), combiner = (\<lambda>x. x)\<rparr>)
          \<and> bound_store h = Some (derived p))"

subsection \<open>The component and its stores over time\<close>








section \<open>useReadonlyStores, kept in state and effects (unnamed/part_007, lines 135-222)\<close>

text \<open>
  This version takes an array or an object of stores and goes through
  \<open>Object.entries\<close>.
\<close>

text \<open>
  The test \<open>currentEntries.length !== newEntries.length ||
  currentEntries.some((s) => s[1] !== stores[s[0]])\<close>.
\<close>

definition entries_changed :: "store_ref collection \<Rightarrow> store_ref collection \<Rightarrow> bool" where
  "entries_changed cur new =
     (length (entries cur) \<noteq> length (entries new)
      \<or> list_ex (\<lambda>(k, s). Some s \<noteq> property new k) (entries cur))"

text \<open>
  The three React cells of a component that calls this \<open>useReadonlyStores\<close>:
  \<open>stores_cell\<close> is the state \<open>{derived$, stores}\<close> of \<open>useReadonlyStores\<close>, \<open>value_cell\<close>
  the state \<open>{value}\<close> of \<open>useReadonlyStore\<close> (both unset before the first render), and
  \<open>effect_cell\<close> what React keeps of the effect of \<open>useReadonlyStore\<close>: the store in its
  dependency array at its last run and the unsubscribe function that run returned.
\<close>

record fx_state = world +
  stores_cell :: "(store_ref collection \<times> store_ref) option"
  value_cell :: "jsval option"
  effect_cell :: "(store_ref \<times> sub_id) option"


text \<open>
  The render part of \<open>useReadonlyStore\<close>: \<open>useState(() => ({value: store.content()}))\<close>
  reads the store on the first render only, and the hook returns \<open>context.value\<close>.
\<close>

definition useReadonlyStore_fx ::
  "contents \<Rightarrow> store_ref \<Rightarrow> 'a fx_state_scheme \<Rightarrow> 'a fx_state_scheme \<times> jsval" where
  "useReadonlyStore_fx c s h =
     (case value_cell h of
        None \<Rightarrow> (h\<lparr>value_cell := Some (content c h s)\<rparr>, content c h s)
      | Some v \<Rightarrow> (h, v))"

text \<open>
  The render part of \<open>useReadonlyStores\<close>: the state is made on the first render, with
  a derived store over the collection of that render, and the hook returns
  \<open>useReadonlyStore(context.derived$)\<close>.
\<close>

definition useReadonlyStores_fx ::
  "contents \<Rightarrow> store_ref collection \<Rightarrow> 'a fx_state_scheme \<Rightarrow> 'a fx_state_scheme \<times> jsval" where
  "useReadonlyStores_fx c ss h =
     (let (ctx, h1) =
        (case stores_cell h of
           None \<Rightarrow> (let (d, h') = makeDerivedStore ss (\<lambda>x. x) h
                    in ((ss, d), h'\<lparr>stores_cell := Some (ss, d)\<rparr>))
         | Some ctx0 \<Rightarrow> (ctx0, h))
      in useReadonlyStore_fx c (snd ctx) h1)"

text \<open>
  The effect of \<open>useReadonlyStores\<close>, run with the \<open>stores\<close> and the \<open>context\<close> of the
  render it follows. React skips it when neither the collection nor \<open>context.stores\<close>
  is another object than at its last run; the test then gives what it gave at that run,
  namely false (had it been true, \<open>setContext\<close> would have replaced \<open>context.stores\<close>), so
  running it always changes nothing.
\<close>

definition stores_effect ::
  "store_ref collection \<Rightarrow> store_ref collection \<Rightarrow> 'a fx_state_scheme \<Rightarrow> 'a fx_state_scheme" where
  "stores_effect cur ss h =
     (if entries_changed cur ss
      then (let (d, h') = makeDerivedStore ss (\<lambda>x. x) h in h'\<lparr>stores_cell := Some (ss, d)\<rparr>)
      else h)"

text \<open>
  The effect of \<open>useReadonlyStore\<close>, with dependency array \<open>[store]\<close>: when the store is
  another one than at the last run, React first calls the unsubscribe function of that
  run (\<open>store_cleanup\<close>) and then runs the effect again (\<open>store_effect\<close>), which subscribes;
  the store delivers its current value to the listener, which calls \<open>setContext({value})\<close>.
\<close>

definition effect_stale :: "store_ref \<Rightarrow> 'a fx_state_scheme \<Rightarrow> bool" where
  "effect_stale d h = (case effect_cell h of None \<Rightarrow> True | Some (s, u) \<Rightarrow> s \<noteq> d)"

definition store_cleanup :: "store_ref \<Rightarrow> 'a fx_state_scheme \<Rightarrow> 'a fx_state_scheme" where
  "store_cleanup d h =
     (case effect_cell h of
        None \<Rightarrow> h
      | Some (s, u) \<Rightarrow> if s \<noteq> d then h\<lparr>calls := calls h @ [Unsubscribe s u]\<rparr> else h)"

definition store_effect :: "contents \<Rightarrow> store_ref \<Rightarrow> 'a fx_state_scheme \<Rightarrow> 'a fx_state_scheme" where
  "store_effect c d h =
     (if effect_stale d h
      then h\<lparr>calls := calls h @ [Subscribe d (next_sub h)],
             next_sub := Suc (next_sub h),
             value_cell := Some (content c h d),
             effect_cell := Some (d, next_sub h)\<rparr>
      else h)"

text \<open>
  After a render React runs the cleanups that are due, then the effects, in the order of
  the hooks. The effects see the \<open>context\<close> of the render: a state set by an effect shows
  at the next render only.
\<close>

definition commit_fx :: "contents \<Rightarrow> store_ref collection \<Rightarrow> 'a fx_state_scheme \<Rightarrow> 'a fx_state_scheme" where
  "commit_fx c ss h =
     (case stores_cell h of
        None \<Rightarrow> h
      | Some (cur, d) \<Rightarrow> store_effect c d (stores_effect cur ss (store_cleanup d h)))"

definition round_fx :: "contents \<Rightarrow> store_ref collection \<Rightarrow> 'a fx_state_scheme \<Rightarrow> 'a fx_state_scheme" where
  "round_fx c ss h = commit_fx c ss (fst (useReadonlyStores_fx c ss h))"



definition fx_ok :: "'a fx_state_scheme \<Rightarrow> bool" where
  "fx_ok h = (case stores_cell h of None \<Rightarrow> True | Some (cur, d) \<Rightarrow> well_formed cur)"

subsection \<open>The component and its stores over time\<close>

text \<open>
  The listener of this \<open>useReadonlyStore\<close> is \<open>(value) => setContext({value})\<close>: whichever
  subscription it was registered by, a delivery puts the delivered value in the state.
  Modelled from the spec: a store delivers to every registered listener, and a derived
  store recomputes and delivers when one of its inputs delivers.
\<close>

definition listener_fx :: "jsval \<Rightarrow> 'a fx_state_scheme \<Rightarrow> 'a fx_state_scheme" where
  "listener_fx v h = h\<lparr>value_cell := Some v\<rparr>"

definition deliver_fx :: "store_ref \<Rightarrow> jsval \<Rightarrow> 'a fx_state_scheme \<Rightarrow> 'a fx_state_scheme" where
  "deliver_fx s v h = foldl (\<lambda>h' sid. listener_fx v h') h (subscribers (calls h) s)"












section \<open>Invariants and sample data\<close>

text \<open>
  What every sequence of renders keeps true of the calls a component has made: handle
  numbers are never reused, and on every store the handles released so far are, in
  order, the handles obtained so far, but for the one the component still holds.
\<close>

definition balanced :: "'a hook_state_scheme \<Rightarrow> bool" where
  "balanced h =
     ((\<forall>s. \<forall>sid \<in> set (subscriptions (calls h) s). sid < next_sub h)
    \<and> (\<forall>s. distinct (subscriptions (calls h) s))
    \<and> (\<forall>s. subscriptions (calls h) s =
            releases (calls h) s @ (case contextRef h of None \<Rightarrow> []
                                     | Some ctx \<Rightarrow> if store ctx = s then [unsubscribe ctx] else [])))"


section \<open>The listener and the subscription\<close>

lemma listener_fields [simp]:
  "contextRef (listener sid v h) = contextRef h"
  "next_sub (listener sid v h) = next_sub h"
  "calls (listener sid v h) = calls h"
  by (auto simp: listener_def setRerenderFlag_def split: option.splits)

lemma listener_first:
  "closures h sid = Some c \<Longrightarrow> firstSubscriberCall c \<Longrightarrow>
   listener sid v h = h\<lparr>closures := (closures h)(sid \<mapsto> \<lparr>wrappedValue = v, firstSubscriberCall = False\<rparr>)\<rparr>"
  by (simp add: listener_def)

lemma listener_later:
  "closures h sid = Some c \<Longrightarrow> \<not> firstSubscriberCall c \<Longrightarrow>
   closures (listener sid v h) sid = Some \<lparr>wrappedValue = v, firstSubscriberCall = False\<rparr>
   \<and> scheduled (listener sid v h) = Suc (scheduled h)
   \<and> rerenderFlag (listener sid v h) = next_flag (rerenderFlag h)"
  by (cases c) (simp add: listener_def setRerenderFlag_def)

lemma foldl_listener_fields [simp]:
  "contextRef (foldl (\<lambda>h' v. listener sid v h') h ds) = contextRef h"
  "next_sub (foldl (\<lambda>h' v. listener sid v h') h ds) = next_sub h"
  "calls (foldl (\<lambda>h' v. listener sid v h') h ds) = calls h"
  by (induction ds arbitrary: h) auto

lemma foldl_listener_value:
  "closures h sid = Some c \<Longrightarrow>
   \<exists>c'. closures (foldl (\<lambda>h' v. listener sid v h') h ds) sid = Some c'
      \<and> wrappedValue c' = (if ds = [] then wrappedValue c else last ds)"
proof (induction ds arbitrary: h c)
  case Nil
  then show ?case by simp
next
  case (Cons d ds)
  have "\<exists>c1. closures (listener sid d h) sid = Some c1 \<and> wrappedValue c1 = d"
    using Cons.prems by (cases "firstSubscriberCall c") (auto simp: listener_first dest: listener_later)
  then obtain c1 where c1: "closures (listener sid d h) sid = Some c1" "wrappedValue c1 = d" by blast
  from Cons.IH[OF c1(1)] c1(2) show ?case by auto
qed

lemma subscribe_fields:
  "fst (subscribe s ds h) = next_sub h"
  "contextRef (snd (subscribe s ds h)) = contextRef h"
  "calls (snd (subscribe s ds h)) = calls h @ [Subscribe s (next_sub h)]"
  "next_sub (snd (subscribe s ds h)) = Suc (next_sub h)"
  by (simp_all add: subscribe_def Let_def)

lemma subscribe_value:
  "\<exists>c'. closures (snd (subscribe s ds h)) (next_sub h) = Some c'
      \<and> wrappedValue c' = (if ds = [] then Undefined else last ds)"
proof -
  let ?h1 = "h\<lparr>closures := (closures h)(next_sub h \<mapsto> \<lparr>wrappedValue = Undefined, firstSubscriberCall = True\<rparr>),
                 next_sub := Suc (next_sub h),
                 calls := calls h @ [Subscribe s (next_sub h)]\<rparr>"
  have "closures ?h1 (next_sub h) = Some \<lparr>wrappedValue = Undefined, firstSubscriberCall = True\<rparr>" by simp
  from foldl_listener_value[OF this, of ds] show ?thesis
    by (cases "ds = []") (auto simp: subscribe_def Let_def)
qed

lemma subscribe_single:
  "scheduled (snd (subscribe s [v] h)) = scheduled h"
  "rerenderFlag (snd (subscribe s [v] h)) = rerenderFlag h"
  "closures (snd (subscribe s [v] h)) (next_sub h) = Some \<lparr>wrappedValue = v, firstSubscriberCall = False\<rparr>"
  by (simp_all add: subscribe_def Let_def listener_def)

lemma useReadonlyStore_subscribing:
  assumes "must_subscribe s h"
  shows "fst (useReadonlyStore s ds h) =
           (snd (subscribe s ds (case contextRef h of None \<Rightarrow> h | Some c \<Rightarrow> call_unsubscribe c h)))
             \<lparr>contextRef := Some \<lparr>store = s, unsubscribe = next_sub h\<rparr>\<rparr>"
  using assms
  by (auto simp: useReadonlyStore_def Let_def split_beta subscribe_fields call_unsubscribe_def split: option.splits)

lemma useReadonlyStore_same:
  "\<not> must_subscribe s h \<Longrightarrow> fst (useReadonlyStore s ds h) = h"
  by (simp add: useReadonlyStore_def)

lemma useReadonlyStore_calls:
  "must_subscribe s h \<Longrightarrow>
   calls (fst (useReadonlyStore s ds h)) =
     calls h @ (case contextRef h of None \<Rightarrow> [] | Some c \<Rightarrow> [Unsubscribe (store c) (unsubscribe c)])
             @ [Subscribe s (next_sub h)]
   \<and> next_sub (fst (useReadonlyStore s ds h)) = Suc (next_sub h)
   \<and> contextRef (fst (useReadonlyStore s ds h)) = Some \<lparr>store = s, unsubscribe = next_sub h\<rparr>"
  by (simp add: useReadonlyStore_subscribing subscribe_fields call_unsubscribe_def split: option.splits)

lemma useReadonlyStore_value:
  assumes "must_subscribe s h"
  shows "snd (useReadonlyStore s ds h) = (if ds = [] then Undefined else last ds)"
proof -
  let ?h0 = "case contextRef h of None \<Rightarrow> h | Some c \<Rightarrow> call_unsubscribe c h"
  have n: "next_sub ?h0 = next_sub h" by (simp add: call_unsubscribe_def split: option.splits)
  obtain c' where c': "closures (snd (subscribe s ds ?h0)) (next_sub h) = Some c'"
      "wrappedValue c' = (if ds = [] then Undefined else last ds)"
    using subscribe_value[of s ds ?h0] n by auto
  have "snd (useReadonlyStore s ds h) = current_value (fst (useReadonlyStore s ds h))"
    by (simp add: useReadonlyStore_def Let_def)
  also have "\<dots> = wrappedValue c'"
    using c' by (simp add: useReadonlyStore_subscribing[OF assms] current_value_def)
  finally show ?thesis using c' by simp
qed

section \<open>The registry of a store\<close>

lemma subscriptions_append [simp]:
  "subscriptions (cs @ ds) s = subscriptions cs s @ subscriptions ds s"
  by (simp add: subscriptions_def)

lemma releases_append [simp]:
  "releases (cs @ ds) s = releases cs s @ releases ds s"
  by (simp add: releases_def)

lemma subscriptions_simps [simp]:
  "subscriptions [] s = []"
  "subscriptions (Subscribe s' sid # cs) s = (if s' = s then sid # subscriptions cs s else subscriptions cs s)"
  "subscriptions (Unsubscribe s' sid # cs) s = subscriptions cs s"
  "subscriptions (StoreSet s' v # cs) s = subscriptions cs s"
  "subscriptions (StoreUpdate s' v # cs) s = subscriptions cs s"
  by (simp_all add: subscriptions_def)

lemma releases_simps [simp]:
  "releases [] s = []"
  "releases (Subscribe s' sid # cs) s = releases cs s"
  "releases (Unsubscribe s' sid # cs) s = (if s' = s then sid # releases cs s else releases cs s)"
  "releases (StoreSet s' v # cs) s = releases cs s"
  "releases (StoreUpdate s' v # cs) s = releases cs s"
  by (simp_all add: releases_def)

section \<open>Re-renders and store mutations\<close>










text \<open>
  Claim C2. Whatever happened to the component before (\<open>h\<close> is any state), a call of
  \<open>useReadonlyStore\<close> that finds no context or a context bound to another store makes
  exactly these calls, in this order: the unsubscribe handle of the old context if there
  is one, then \<open>subscribe\<close> on the new store. The value \<open>v\<close> the store delivers inside
  \<open>subscribe\<close> ends up in the wrapper of the new context and is the value the hook
  returns, and no re-render is asked for. Nothing here can throw. Since \<open>h\<close> is
  arbitrary, a component handed another store at every render goes through this cycle
  at every render.
\<close>

theorem resubscribes_when_store_changes:
  assumes "must_subscribe s h"
  shows "calls (fst (useReadonlyStore s [v] h)) =
           calls h @ (case contextRef h of None \<Rightarrow> [] | Some c \<Rightarrow> [Unsubscribe (store c) (unsubscribe c)])
                   @ [Subscribe s (next_sub h)]
       \<and> contextRef (fst (useReadonlyStore s [v] h)) = Some \<lparr>store = s, unsubscribe = next_sub h\<rparr>
       \<and> closures (fst (useReadonlyStore s [v] h)) (next_sub h) = Some \<lparr>wrappedValue = v, firstSubscriberCall = False\<rparr>
       \<and> snd (useReadonlyStore s [v] h) = v
       \<and> scheduled (fst (useReadonlyStore s [v] h)) = scheduled h"
proof -
  let ?h0 = "case contextRef h of None \<Rightarrow> h | Some c \<Rightarrow> call_unsubscribe c h"
  have b: "next_sub ?h0 = next_sub h" and c: "scheduled ?h0 = scheduled h"
    by (simp_all add: call_unsubscribe_def split: option.splits)
  have d: "closures (snd (subscribe s [v] ?h0)) (next_sub h) = Some \<lparr>wrappedValue = v, firstSubscriberCall = False\<rparr>"
    using subscribe_single(3)[of s v ?h0] by (simp add: b)
  show ?thesis
    using useReadonlyStore_value[OF assms, of "[v]"] useReadonlyStore_calls[OF assms, of "[v]"] d
    by (simp add: useReadonlyStore_subscribing[OF assms] c subscribe_single)
qed

theorem resubscribes_when_store_changes_witness:
  "must_subscribe (Store 2) (fst (useReadonlyStore (Store 1) [Number 1] initial))
   \<and> calls (fst (useReadonlyStore (Store 2) [Number 10] (fst (useReadonlyStore (Store 1) [Number 1] initial))))
       = [Subscribe (Store 1) 0, Unsubscribe (Store 1) 0, Subscribe (Store 2) 1]
   \<and> snd (useReadonlyStore (Store 2) [Number 10] (fst (useReadonlyStore (Store 1) [Number 1] initial))) = Number 10"
proof -
  have m0: "must_subscribe (Store 1) initial" by (simp add: must_subscribe_def initial_def)
  note a = useReadonlyStore_calls[OF m0, of "[Number 1]"]
  have m: "must_subscribe (Store 2) (fst (useReadonlyStore (Store 1) [Number 1] initial))"
    using a by (simp add: must_subscribe_def)
  from resubscribes_when_store_changes[OF m, of "Number 10"] a m show ?thesis
    by (simp add: initial_def)
qed

section \<open>Subscriptions over the life of a component\<close>

lemma balanced_initial: "balanced initial"
  by (simp add: balanced_def initial_def)

lemma useReadonlyStore_balanced:
  assumes "balanced h"
  shows "balanced (fst (useReadonlyStore s ds h))"
proof (cases "must_subscribe s h")
  case False
  then show ?thesis using assms by (simp add: useReadonlyStore_same)
next
  case True
  let ?h' = "fst (useReadonlyStore s ds h)"
  note u = useReadonlyStore_calls[OF True, of ds]
  from assms have fr: "\<And>s' sid. sid \<in> set (subscriptions (calls h) s') \<Longrightarrow> sid < next_sub h"
    and di: "\<And>s'. distinct (subscriptions (calls h) s')"
    and eq: "\<And>s'. subscriptions (calls h) s' =
            releases (calls h) s' @ (case contextRef h of None \<Rightarrow> []
                                     | Some ctx \<Rightarrow> if store ctx = s' then [unsubscribe ctx] else [])"
    unfolding balanced_def by blast+
  have new: "next_sub h \<notin> set (subscriptions (calls h) s')" for s'
    using fr[of "next_sub h" s'] by auto
  have 1: "sid \<in> set (subscriptions (calls ?h') s') \<Longrightarrow> sid < next_sub ?h'" for s' sid
    using fr[of sid s'] by (auto simp: u split: option.splits if_splits)
  have 2: "distinct (subscriptions (calls ?h') s')" for s'
    using di[of s'] new[of s'] by (auto simp: u split: option.splits)
  have 3: "subscriptions (calls ?h') s' =
            releases (calls ?h') s' @ (case contextRef ?h' of None \<Rightarrow> []
                                     | Some ctx \<Rightarrow> if store ctx = s' then [unsubscribe ctx] else [])" for s'
    using eq[of s'] by (auto simp: u split: option.splits)
  show ?thesis unfolding balanced_def using 1 2 3 by blast
qed

lemma renders_balanced: "balanced h \<Longrightarrow> balanced (renders rs h)"
proof (induction rs arbitrary: h)
  case Nil
  then show ?case by (simp add: renders_def)
next
  case (Cons r rs)
  obtain s ds where r: "r = (s, ds)" by (cases r)
  from Cons.IH[OF useReadonlyStore_balanced[OF Cons.prems, of s ds]]
  show ?case by (simp add: renders_def r)
qed

lemma cleanup_balanced:
  assumes "balanced h"
  shows "subscriptions (calls (cleanup h)) s = releases (calls (cleanup h)) s
       \<and> distinct (subscriptions (calls (cleanup h)) s)"
proof -
  from assms have di: "distinct (subscriptions (calls h) s)"
    and eq: "subscriptions (calls h) s =
            releases (calls h) s @ (case contextRef h of None \<Rightarrow> []
                                     | Some ctx \<Rightarrow> if store ctx = s then [unsubscribe ctx] else [])"
    unfolding balanced_def by blast+
  have a: "subscriptions (calls (cleanup h)) s = subscriptions (calls h) s"
    by (simp add: cleanup_def call_unsubscribe_def split: option.splits)
  have b: "releases (calls (cleanup h)) s =
            releases (calls h) s @ (case contextRef h of None \<Rightarrow> []
                                     | Some ctx \<Rightarrow> if store ctx = s then [unsubscribe ctx] else [])"
    by (simp add: cleanup_def call_unsubscribe_def split: option.splits)
  show ?thesis unfolding a b using di eq by simp
qed

text \<open>
  As long as every call of the hook finds the ref the previous call wrote (mount, any
  renders, unmount), the handles released on a store are exactly the handles obtained
  on it, in the same order and each one once.
\<close>

lemma lifecycle_balanced:
  "subscriptions (calls (lifecycle rs)) s = releases (calls (lifecycle rs)) s
   \<and> distinct (releases (calls (lifecycle rs)) s)"
proof -
  have "subscriptions (calls (lifecycle rs)) s = releases (calls (lifecycle rs)) s
       \<and> distinct (subscriptions (calls (lifecycle rs)) s)"
    unfolding lifecycle_def
    by (rule cleanup_balanced[OF renders_balanced[OF balanced_initial]])
  then show ?thesis by metis
qed

lemma strict_mount_calls:
  "calls (strict_mount s ds) = [Subscribe s 0, Subscribe s 1]
   \<and> contextRef (strict_mount s ds) = Some \<lparr>store = s, unsubscribe = 1\<rparr>"
proof -
  let ?h1 = "fst (useReadonlyStore s ds initial)"
  have m0: "must_subscribe s initial" by (simp add: must_subscribe_def initial_def)
  note a = useReadonlyStore_calls[OF m0, of ds]
  have m1: "must_subscribe s (discard ?h1)" by (simp add: must_subscribe_def discard_def)
  note b = useReadonlyStore_calls[OF m1, of ds]
  show ?thesis using a b by (simp add: strict_mount_def discard_def initial_def)
qed

text \<open>
  Claim C3. Under strict mode the claim fails on this hook. A component mounted in strict
  mode on store \<open>Store 1\<close> (holding 73) and then unmounted has subscribed twice, with
  handles 0 and 1, and has released handle 1 only: the subscription of the discarded
  first call is never released, because the only handle the hook can reach is the one in
  \<open>contextRef.current\<close>, and that cell was thrown away with the first call. When React
  also runs the effect's cleanup once more, as strict mode does right after mounting,
  handle 1 is released twice and handle 0 still never.
\<close>

theorem strict_mount_leaks_subscription:
  "subscriptions (calls (cleanup (strict_mount (Store 1) [Number 73]))) (Store 1) = [0, 1]
   \<and> releases (calls (cleanup (strict_mount (Store 1) [Number 73]))) (Store 1) = [1]
   \<and> releases (calls (cleanup (cleanup (strict_mount (Store 1) [Number 73])))) (Store 1) = [1, 1]"
  using strict_mount_calls[of "Store 1" "[Number 73]"]
  by (simp add: cleanup_def call_unsubscribe_def)

section \<open>The re-render flag\<close>

lemma funpow_flag:
  "rerenderFlag ((setRerenderFlag next_flag ^^ n) h) = (next_flag ^^ n) (rerenderFlag h)"
  by (induction n) (simp_all add: setRerenderFlag_def)

lemma next_flag_funpow: "r < MAX_SAFE_INTEGER \<Longrightarrow> (next_flag ^^ n) r = (r + n) mod MAX_SAFE_INTEGER"
proof (induction n)
  case 0
  then show ?case by simp
next
  case (Suc n)
  then show ?case by (simp add: next_flag_def mod_Suc_eq)
qed

lemma flag_after: "rerenderFlag ((setRerenderFlag next_flag ^^ n) initial) = n mod MAX_SAFE_INTEGER"
  using next_flag_funpow[of 0 n] by (simp add: funpow_flag initial_def MAX_SAFE_INTEGER_def)

text \<open>
  Claim C9, as stated, fails: after \<open>2^53 - 2\<close> updates the flag is \<open>2^53 - 2\<close>, and the
  next update takes it to 0, which is not greater.
\<close>

theorem rerender_flag_wraps_to_zero:
  "rerenderFlag ((setRerenderFlag next_flag ^^ 9007199254740990) initial) = 9007199254740990
   \<and> rerenderFlag ((setRerenderFlag next_flag ^^ 9007199254740991) initial) = 0
   \<and> \<not> rerenderFlag ((setRerenderFlag next_flag ^^ 9007199254740990) initial)
        < rerenderFlag ((setRerenderFlag next_flag ^^ 9007199254740991) initial)"
  by (simp add: flag_after MAX_SAFE_INTEGER_def)

text \<open>
  Claim C9, amended. Starting from the initial flag 0, every update changes the flag:
  it adds one, except that the update after \<open>MAX_SAFE_INTEGER - 1\<close> gives 0.
\<close>

theorem rerender_flag_always_changes:
  "rerenderFlag ((setRerenderFlag next_flag ^^ Suc n) initial) \<noteq> rerenderFlag ((setRerenderFlag next_flag ^^ n) initial)
   \<and> rerenderFlag ((setRerenderFlag next_flag ^^ Suc n) initial) =
        (if rerenderFlag ((setRerenderFlag next_flag ^^ n) initial) = MAX_SAFE_INTEGER - 1 then 0
         else Suc (rerenderFlag ((setRerenderFlag next_flag ^^ n) initial)))"
proof -
  let ?r = "rerenderFlag ((setRerenderFlag next_flag ^^ n) initial)"
  have lt: "?r < MAX_SAFE_INTEGER" by (simp add: flag_after MAX_SAFE_INTEGER_def)
  have s: "rerenderFlag ((setRerenderFlag next_flag ^^ Suc n) initial) = next_flag ?r"
    by (simp add: setRerenderFlag_def)
  have "next_flag ?r = (if ?r = MAX_SAFE_INTEGER - 1 then 0 else Suc ?r)"
    using lt by (auto simp: next_flag_def MAX_SAFE_INTEGER_def)
  then show ?thesis using lt unfolding s by (auto simp: MAX_SAFE_INTEGER_def)
qed

theorem rerender_flag_always_changes_witness:
  "rerenderFlag ((setRerenderFlag next_flag ^^ Suc 2) initial) \<noteq> rerenderFlag ((setRerenderFlag next_flag ^^ 2) initial)
   \<and> rerenderFlag ((setRerenderFlag next_flag ^^ 2) initial) = 2
   \<and> rerenderFlag ((setRerenderFlag next_flag ^^ Suc 2) initial) = 3"
  using rerender_flag_always_changes[of 2] by (simp add: flag_after MAX_SAFE_INTEGER_def)

section \<open>A store that does not deliver on subscribe\<close>

text \<open>
  Claim C10. The hook never reads a store's value itself: the wrapper starts as
  \<open>undefined\<close> and only the listener writes it. So when the hook subscribes, it returns
  the last value the store delivered inside \<open>subscribe\<close>, and \<open>undefined\<close> when the store
  delivered nothing; no statement of the hook can throw in either case.
\<close>

theorem undefined_without_delivery:
  assumes "must_subscribe s h"
  shows "snd (useReadonlyStore s [] h) = Undefined
       \<and> snd (useReadonlyStore s ds h) = (if ds = [] then Undefined else last ds)"
  using useReadonlyStore_value[OF assms, of ds] useReadonlyStore_value[OF assms, of "[]"] by simp

theorem undefined_without_delivery_witness:
  "must_subscribe (Store 1) initial \<and> snd (useReadonlyStore (Store 1) [] initial) = Undefined"
proof -
  have m: "must_subscribe (Store 1) initial" by (simp add: must_subscribe_def initial_def)
  from undefined_without_delivery[OF m] m show ?thesis by simp
qed

section \<open>The setter of useStore\<close>

lemma typeof_function: "(typeof a = ''function'') = invocable a"
  by (cases a) simp_all

lemma setter_ok_initial: "setter_ok initial_store"
  by (simp add: setter_ok_def initial_store_def)

lemma useReadonlyStore_setter_fields [simp]:
  "callbackCell (fst (useReadonlyStore s ds h)) = callbackCell h"
  "setters (fst (useReadonlyStore s ds h)) = setters h"
  "next_function (fst (useReadonlyStore s ds h)) = next_function h"
proof -
  have l: "callbackCell (listener sid v h') = callbackCell h' \<and> setters (listener sid v h') = setters h'
      \<and> next_function (listener sid v h') = next_function h'" for sid v and h' :: "'a store_hook_state_scheme"
    by (auto simp: listener_def setRerenderFlag_def split: option.splits)
  have f: "callbackCell (foldl (\<lambda>h' v. listener sid v h') h' ds) = callbackCell h'
      \<and> setters (foldl (\<lambda>h' v. listener sid v h') h' ds) = setters h'
      \<and> next_function (foldl (\<lambda>h' v. listener sid v h') h' ds) = next_function h'"
    for sid and h' :: "'a store_hook_state_scheme"
    by (induction ds arbitrary: h') (simp_all add: l)
  show "callbackCell (fst (useReadonlyStore s ds h)) = callbackCell h"
    "setters (fst (useReadonlyStore s ds h)) = setters h"
    "next_function (fst (useReadonlyStore s ds h)) = next_function h"
    by (auto simp: useReadonlyStore_def Let_def split_beta subscribe_def f call_unsubscribe_def split: option.splits)
qed

lemma useStore_setter:
  assumes "setter_ok h"
  shows "setter_ok (fst (useStore s ds h))
       \<and> setters (fst (useStore s ds h)) (snd (snd (useStore s ds h))) = Some s
       \<and> callbackCell (fst (useStore s ds h)) = Some (snd (snd (useStore s ds h)), [s])
       \<and> next_function (fst (useStore s ds h)) = Suc (next_function h)
       \<and> snd (snd (useStore s ds h)) =
           (case callbackCell h of None \<Rightarrow> next_function h
            | Some (g, deps) \<Rightarrow> if deps = [s] then g else next_function h)"
proof -
  obtain h1 v where r: "useReadonlyStore s ds h = (h1, v)" by (cases "useReadonlyStore s ds h")
  have h1: "callbackCell h1 = callbackCell h" "setters h1 = setters h" "next_function h1 = next_function h"
    using useReadonlyStore_setter_fields[of s ds h] r by simp_all
  show ?thesis
  proof (cases "callbackCell h")
    case None
    then show ?thesis
      by (simp add: useStore_def r new_function_def useCallback_def h1 setter_ok_def)
  next
    case (Some gd)
    obtain g deps where gd: "gd = (g, deps)" by (cases gd)
    from assms Some gd obtain s0 where ok: "g < next_function h" "deps = [s0]" "setters h g = Some s0"
      by (auto simp: setter_ok_def)
    show ?thesis using Some gd ok
      by (auto simp: useStore_def r new_function_def useCallback_def h1 setter_ok_def)
  qed
qed

lemma store_renders_ok: "setter_ok (store_renders rs)"
proof -
  have "setter_ok h \<Longrightarrow> setter_ok (foldl (\<lambda>h (s, ds). fst (useStore s ds h)) h rs)"
    for h :: store_hook_state
  proof (induction rs arbitrary: h)
    case Nil
    then show ?case by simp
  next
    case (Cons r rs)
    obtain s ds where r: "r = (s, ds)" by (cases r)
    from useStore_setter[OF Cons.prems, of s ds] have "setter_ok (fst (useStore s ds h))" by simp
    from Cons.IH[OF this] show ?case by (simp add: r)
  qed
  from this[OF setter_ok_initial] show ?thesis by (simp add: store_renders_def)
qed

text \<open>
  Claim C6. Take the setter returned by any render of a component that uses \<open>useStore\<close>,
  with store \<open>s\<close>, and call it with any argument \<open>a\<close>. It makes exactly one call on the
  store: \<open>s.update(a)\<close> when \<open>a\<close> is a function, \<open>s.set(a)\<close> when it is anything
  else, with \<open>a\<close> itself as the argument. Which of the two depends on nothing but
  whether \<open>a\<close> is a function.
\<close>

theorem setter_routes_by_invocability:
  "calls (call_setter (snd (snd (useStore s ds (store_renders rs)))) a (fst (useStore s ds (store_renders rs))))
     = calls (fst (useStore s ds (store_renders rs))) @ [if invocable a then StoreUpdate s a else StoreSet s a]"
proof -
  from useStore_setter[OF store_renders_ok, of s ds rs]
  have "setters (fst (useStore s ds (store_renders rs))) (snd (snd (useStore s ds (store_renders rs)))) = Some s"
    by blast
  then show ?thesis by (simp add: call_setter_def typeof_function)
qed

theorem setter_routes_by_invocability_witness:
  "calls (call_setter (snd (snd (useStore (Store 1) [Number 0] (store_renders [])))) (Closure 7)
            (fst (useStore (Store 1) [Number 0] (store_renders []))))
     = [Subscribe (Store 1) 0, StoreUpdate (Store 1) (Closure 7)]
   \<and> calls (call_setter (snd (snd (useStore (Store 1) [Number 0] (store_renders [])))) (Number 5)
            (fst (useStore (Store 1) [Number 0] (store_renders []))))
     = [Subscribe (Store 1) 0, StoreSet (Store 1) (Number 5)]"
proof -
  have m: "must_subscribe (Store 1) initial_store" by (simp add: must_subscribe_def initial_store_def)
  have c: "calls (fst (useStore (Store 1) [Number 0] (store_renders []))) = [Subscribe (Store 1) 0]"
    using useReadonlyStore_calls[OF m, of "[Number 0]"]
    by (simp add: store_renders_def useStore_def split_beta new_function_def useCallback_def initial_store_def)
  from setter_routes_by_invocability[of "Store 1" "[Number 0]" "[]" "Closure 7"]
       setter_routes_by_invocability[of "Store 1" "[Number 0]" "[]" "Number 5"] c
  show ?thesis by simp
qed

text \<open>
  Claim C7. Take two consecutive renders of a component that uses \<open>useStore\<close>, after any
  number of earlier renders. The second render returns the same function object as the
  first if and only if it was given the same store.
\<close>

theorem setter_identity_follows_store:
  "(snd (snd (useStore s2 ds2 (fst (useStore s1 ds1 (store_renders rs))))) = snd (snd (useStore s1 ds1 (store_renders rs))))
    = (s2 = s1)"
proof -
  let ?h = "store_renders rs"
  let ?r1 = "useStore s1 ds1 ?h"
  note a = useStore_setter[OF store_renders_ok, of s1 ds1 rs]
  from a have ok1: "setter_ok (fst ?r1)" by simp
  note b = useStore_setter[OF ok1, of s2 ds2]
  from a have cell: "callbackCell (fst ?r1) = Some (snd (snd ?r1), [s1])"
    and nx: "next_function (fst ?r1) = Suc (next_function ?h)" by simp_all
  from ok1 cell have lt: "snd (snd ?r1) < next_function (fst ?r1)" by (simp add: setter_ok_def)
  from b cell have "snd (snd (useStore s2 ds2 (fst ?r1))) = (if [s1] = [s2] then snd (snd ?r1) else next_function (fst ?r1))"
    by simp
  with lt show ?thesis by auto
qed

theorem setter_identity_follows_store_witness:
  "snd (snd (useStore (Store 1) [Number 0] (fst (useStore (Store 1) [Number 0] (store_renders [])))))
     = snd (snd (useStore (Store 1) [Number 0] (store_renders [])))
   \<and> snd (snd (useStore (Store 2) [Number 0] (fst (useStore (Store 1) [Number 0] (store_renders [])))))
     \<noteq> snd (snd (useStore (Store 1) [Number 0] (store_renders [])))"
  using setter_identity_follows_store[of "Store 1" "[Number 0]" "Store 1" "[Number 0]" "[]"]
        setter_identity_follows_store[of "Store 2" "[Number 0]" "Store 1" "[Number 0]" "[]"]
  by simp


section \<open>Comparing collections of stores\<close>

lemma list_ex_zip_upt: "list_ex P (zip xs [0..<length xs]) = (\<exists>i<length xs. P (xs ! i, i))"
proof
  assume "list_ex P (zip xs [0..<length xs])"
  then obtain a b where ab: "(a, b) \<in> set (zip xs [0..<length xs])" "P (a, b)"
    unfolding list_ex_iff by auto
  from ab(1) obtain n where "xs ! n = a" "[0..<length xs] ! n = b" "n < length xs"
    unfolding in_set_zip by auto
  with ab(2) show "\<exists>i<length xs. P (xs ! i, i)" by auto
next
  assume "\<exists>i<length xs. P (xs ! i, i)"
  then obtain i where i: "i < length xs" "P (xs ! i, i)" by blast
  then have "(xs ! i, i) \<in> set (zip xs [0..<length xs])"
    unfolding in_set_zip by auto
  with i(2) show "list_ex P (zip xs [0..<length xs])"
    unfolding list_ex_iff by blast
qed

lemma stores_changed_iff: "stores_changed prev new = (prev \<noteq> new)"
proof (cases "length prev = length new")
  case False
  then show ?thesis by (auto simp: stores_changed_def)
next
  case True
  have "list_ex (\<lambda>(s, i). Some s \<noteq> element new i) (zip prev [0..<length prev])
        = (\<exists>i < length prev. prev ! i \<noteq> new ! i)"
    unfolding list_ex_zip_upt using True by (auto simp: element_def)
  moreover have "(prev \<noteq> new) = (\<exists>i < length prev. prev ! i \<noteq> new ! i)"
    using True by (auto simp: list_eq_iff_nth_eq)
  ultimately show ?thesis using True by (simp add: stores_changed_def)
qed


lemma useReadonlyStore_world_fields [simp]:
  "derived_stores (fst (useReadonlyStore s ds h)) = derived_stores h"
  "next_derived (fst (useReadonlyStore s ds h)) = next_derived h"
proof -
  have l: "derived_stores (listener sid v h') = derived_stores h' \<and> next_derived (listener sid v h') = next_derived h'"
    for sid v and h' :: "'a hook_state_scheme"
    by (auto simp: listener_def setRerenderFlag_def split: option.splits)
  have f: "derived_stores (foldl (\<lambda>h' v. listener sid v h') h' ds) = derived_stores h'
      \<and> next_derived (foldl (\<lambda>h' v. listener sid v h') h' ds) = next_derived h'"
    for sid and h' :: "'a hook_state_scheme"
    by (induction ds arbitrary: h') (simp_all add: l)
  show "derived_stores (fst (useReadonlyStore s ds h)) = derived_stores h"
    "next_derived (fst (useReadonlyStore s ds h)) = next_derived h"
    by (auto simp: useReadonlyStore_def Let_def split_beta subscribe_def f call_unsubscribe_def split: option.splits)
qed

lemma useReadonlyStore_previousContextRef [simp]:
  "previousContextRef (fst (useReadonlyStore s ds h)) = previousContextRef h"
proof -
  have l: "previousContextRef (listener sid v h') = previousContextRef h'"
    for sid v and h' :: "'a stores_hook_state_scheme"
    by (auto simp: listener_def setRerenderFlag_def split: option.splits)
  have f: "previousContextRef (foldl (\<lambda>h' v. listener sid v h') h' ds) = previousContextRef h'"
    for sid and h' :: "'a stores_hook_state_scheme"
    by (induction ds arbitrary: h') (simp_all add: l)
  show ?thesis
    by (auto simp: useReadonlyStore_def Let_def split_beta subscribe_def f call_unsubscribe_def split: option.splits)
qed

lemma useReadonlyStore_bound [simp]:
  "bound_store (fst (useReadonlyStore s ds h)) = Some s"
  by (cases "must_subscribe s h")
     (auto simp: useReadonlyStore_calls useReadonlyStore_same bound_store_def must_subscribe_def split: option.splits)

text \<open>A render that makes a derived store.\<close>

lemma useReadonlyStores_new:
  assumes ok: "stores_ok h"
    and new: "(case previousContextRef h of None \<Rightarrow> True | Some p \<Rightarrow> stores p \<noteq> ss)"
  shows "stores_ok (fst (useReadonlyStores c ss h))
       \<and> previousContextRef (fst (useReadonlyStores c ss h)) = Some \<lparr>stores = ss, derived = Derived (next_derived h)\<rparr>
       \<and> next_derived (fst (useReadonlyStores c ss h)) = Suc (next_derived h)
       \<and> derived_stores (fst (useReadonlyStores c ss h)) (next_derived h) = Some \<lparr>inputs = Array ss, combiner = (\<lambda>x. x)\<rparr>
       \<and> calls (fst (useReadonlyStores c ss h)) =
           calls h @ (case contextRef h of None \<Rightarrow> [] | Some ctx \<Rightarrow> [Unsubscribe (store ctx) (unsubscribe ctx)])
                   @ [Subscribe (Derived (next_derived h)) (next_sub h)]
       \<and> snd (useReadonlyStores c ss h) = Bundle (Array (map c ss))"
proof -
  let ?d = "Derived (next_derived h)"
  define h1 where "h1 = snd (new_context ss h)"
  have nc: "new_context ss h = (\<lparr>stores = ss, derived = ?d\<rparr>, h1)"
    by (simp add: new_context_def makeDerivedStore_def Let_def h1_def)
  have p1: "previousContextRef h1 = Some \<lparr>stores = ss, derived = ?d\<rparr>"
    and n1: "next_derived h1 = Suc (next_derived h)"
    and d1: "derived_stores h1 (next_derived h) = Some \<lparr>inputs = Array ss, combiner = (\<lambda>x. x)\<rparr>"
    and c1: "contextRef h1 = contextRef h" and l1: "calls h1 = calls h" and s1: "next_sub h1 = next_sub h"
    by (simp_all add: h1_def new_context_def makeDerivedStore_def Let_def)
  have u: "useReadonlyStores c ss h = useReadonlyStore ?d [content c h1 ?d] h1"
    using new nc by (auto simp: useReadonlyStores_def stores_changed_iff split: option.splits)
  have m: "must_subscribe ?d h1"
  proof (cases "contextRef h")
    case None
    then show ?thesis by (simp add: must_subscribe_def c1)
  next
    case (Some ctx)
    with ok obtain p k where "previousContextRef h = Some p" "derived p = Derived k" "k < next_derived h"
        "bound_store h = Some (derived p)"
      by (auto simp: stores_ok_def split: option.splits)
    with Some have "store ctx \<noteq> ?d" by (auto simp: bound_store_def)
    with Some show ?thesis by (simp add: must_subscribe_def c1)
  qed
  have cont: "content c h1 ?d = Bundle (Array (map c ss))"
    by (simp add: content_def d1 derived_content_def)
  note cl = useReadonlyStore_calls[OF m, of "[content c h1 ?d]"]
  note va = useReadonlyStore_value[OF m, of "[content c h1 ?d]"]
  let ?h2 = "fst (useReadonlyStore ?d [content c h1 ?d] h1)"
  have okk: "stores_ok ?h2"
    by (simp add: stores_ok_def p1 n1 d1)
  have A: "previousContextRef ?h2 = Some \<lparr>stores = ss, derived = ?d\<rparr>" by (simp add: p1)
  have B: "next_derived ?h2 = Suc (next_derived h)" by (simp add: n1)
  have C: "derived_stores ?h2 (next_derived h) = Some \<lparr>inputs = Array ss, combiner = (\<lambda>x. x)\<rparr>"
    by (simp add: d1)
  have D: "calls ?h2 = calls h @ (case contextRef h of None \<Rightarrow> [] | Some ctx \<Rightarrow> [Unsubscribe (store ctx) (unsubscribe ctx)])
                   @ [Subscribe ?d (next_sub h)]"
    using cl by (simp add: c1 l1 s1)
  have E: "snd (useReadonlyStore ?d [content c h1 ?d] h1) = Bundle (Array (map c ss))"
    using va cont by simp
  show ?thesis unfolding u using okk A B C D E by blast
qed

text \<open>A render that keeps the derived store of the last one.\<close>

lemma useReadonlyStores_same:
  assumes ok: "stores_ok h"
    and same: "previousContextRef h = Some p" "stores p = ss"
  shows "fst (useReadonlyStores c ss h) = h \<and> snd (useReadonlyStores c ss h) = current_value h"
proof -
  from ok same have b: "bound_store h = Some (derived p)" by (auto simp: stores_ok_def)
  then have m: "\<not> must_subscribe (derived p) h"
    by (auto simp: bound_store_def must_subscribe_def split: option.splits)
  have u: "useReadonlyStores c ss h = useReadonlyStore (derived p) [content c h (derived p)] h"
    using same by (simp add: useReadonlyStores_def stores_changed_iff)
  show ?thesis using m by (simp add: u useReadonlyStore_def)
qed

lemma useReadonlyStores_ok:
  assumes "stores_ok h"
  shows "stores_ok (fst (useReadonlyStores c ss h))
       \<and> (\<exists>d. previousContextRef (fst (useReadonlyStores c ss h)) = Some \<lparr>stores = ss, derived = d\<rparr>)"
proof (cases "case previousContextRef h of None \<Rightarrow> True | Some p \<Rightarrow> stores p \<noteq> ss")
  case True
  from useReadonlyStores_new[OF assms True, of c] show ?thesis by simp
next
  case False
  then obtain p where p: "previousContextRef h = Some p" "stores p = ss" by (auto split: option.splits)
  from useReadonlyStores_same[OF assms p, of c] assms p show ?thesis by (cases p) auto
qed

lemma stores_ok_initial: "stores_ok initial_stores"
  by (simp add: stores_ok_def initial_stores_def)

lemma stores_renders_ok: "stores_ok (stores_renders rs)"
proof -
  have "stores_ok h \<Longrightarrow> stores_ok (foldl (\<lambda>h (c, ss). fst (useReadonlyStores c ss h)) h rs)"
    for h :: stores_hook_state
  proof (induction rs arbitrary: h)
    case Nil
    then show ?case by simp
  next
    case (Cons r rs)
    obtain c ss where r: "r = (c, ss)" by (cases r)
    from useReadonlyStores_ok[OF Cons.prems, of c ss] have "stores_ok (fst (useReadonlyStores c ss h))" by simp
    from Cons.IH[OF this] show ?case by (simp add: r)
  qed
  from this[OF stores_ok_initial] show ?thesis by (simp add: stores_renders_def)
qed


lemma ref_value:
  "(case previousContextRef (stores_renders rs) of None \<Rightarrow> True | Some p \<Rightarrow> stores p \<noteq> ss) \<Longrightarrow>
   snd (useReadonlyStores c ss (stores_renders rs)) = Bundle (Array (map c ss))"
  using useReadonlyStores_new[where h="stores_renders rs" and ss=ss and c=c, OF stores_renders_ok] by simp

lemma entries_property:
  "well_formed c \<Longrightarrow> ((k, s) \<in> set (entries c)) = (property c k = Some s)"
proof (cases c)
  case (Array xs)
  show ?thesis
  proof (cases k)
    case (Index i)
    have "((Index i, s) \<in> set (zip (map Index [0..<length xs]) xs)) = (i < length xs \<and> xs ! i = s)"
    proof
      assume "(Index i, s) \<in> set (zip (map Index [0..<length xs]) xs)"
      then obtain n where "map Index [0..<length xs] ! n = Index i" "xs ! n = s" "n < length xs"
        unfolding in_set_zip by auto
      then show "i < length xs \<and> xs ! i = s" by auto
    next
      assume "i < length xs \<and> xs ! i = s"
      then have "map Index [0..<length xs] ! i = Index i \<and> xs ! i = s \<and> i < length (map Index [0..<length xs]) \<and> i < length xs"
        by simp
      then show "(Index i, s) \<in> set (zip (map Index [0..<length xs]) xs)"
        unfolding in_set_zip by (intro exI[of _ i]) simp
    qed
    then show ?thesis using Array Index by auto
  next
    case (Name n)
    have "(Name n, s) \<notin> set (zip (map Index [0..<length xs]) xs)"
      unfolding in_set_zip by auto
    then show ?thesis using Array Name by simp
  qed
next
  case (Object kvs)
  assume "well_formed c"
  then show ?thesis using Object by (simp add: map_of_eq_Some_iff)
qed

lemma keys_dom: "well_formed c \<Longrightarrow> set (map fst (entries c)) = dom (property c)"
proof -
  assume wf: "well_formed c"
  have "(k \<in> set (map fst (entries c))) = (k \<in> dom (property c))" for k
  proof -
    have "(k \<in> set (map fst (entries c))) = (\<exists>s. (k, s) \<in> set (entries c))" by force
    also have "\<dots> = (\<exists>s. property c k = Some s)" by (simp add: entries_property[OF wf])
    finally show ?thesis by auto
  qed
  then show ?thesis by blast
qed

lemma keys_distinct: "well_formed c \<Longrightarrow> distinct (map fst (entries c))"
proof (cases c)
  case (Array xs)
  have "map fst (zip (map Index [0..<length xs]) xs) = map Index [0..<length xs]" by simp
  moreover have "distinct (map Index [0..<length xs])" by (simp add: distinct_map inj_on_def)
  ultimately show ?thesis using Array by simp
next
  case (Object kvs)
  assume "well_formed c"
  then show ?thesis using Object by simp
qed

lemma length_entries: "well_formed c \<Longrightarrow> length (entries c) = card (dom (property c))"
proof -
  assume wf: "well_formed c"
  have "card (dom (property c)) = card (set (map fst (entries c)))" by (simp only: keys_dom[OF wf])
  also have "\<dots> = length (map fst (entries c))" by (rule distinct_card[OF keys_distinct[OF wf]])
  finally show ?thesis by simp
qed

lemma finite_dom_property: "well_formed c \<Longrightarrow> finite (dom (property c))"
  using keys_dom[of c] by (metis List.finite_set)


lemma entries_changed_iff:
  assumes "well_formed cur" "well_formed new"
  shows "entries_changed cur new = (property cur \<noteq> property new)"
proof
  assume "entries_changed cur new"
  then consider "length (entries cur) \<noteq> length (entries new)"
    | k s where "(k, s) \<in> set (entries cur)" "Some s \<noteq> property new k"
    by (auto simp: entries_changed_def list_ex_iff)
  then show "property cur \<noteq> property new"
  proof cases
    case 1
    then show ?thesis using length_entries[OF assms(1)] length_entries[OF assms(2)] by auto
  next
    case 2
    from 2(1) have "property cur k = Some s" by (simp add: entries_property[OF assms(1)])
    with 2(2) show ?thesis by auto
  qed
next
  assume ne: "property cur \<noteq> property new"
  show "entries_changed cur new"
  proof (rule ccontr)
    assume "\<not> entries_changed cur new"
    then have len: "length (entries cur) = length (entries new)"
      and all: "\<And>k s. (k, s) \<in> set (entries cur) \<Longrightarrow> property new k = Some s"
      by (auto simp: entries_changed_def list_ex_iff)
    have le: "property cur \<subseteq>\<^sub>m property new"
      unfolding map_le_def using all by (auto simp: entries_property[OF assms(1)])
    then have sub: "dom (property cur) \<subseteq> dom (property new)" by (rule map_le_implies_dom_le)
    have "card (dom (property cur)) = card (dom (property new))"
      using len length_entries[OF assms(1)] length_entries[OF assms(2)] by simp
    with sub finite_dom_property[OF assms(2)] have "dom (property cur) = dom (property new)"
      by (simp add: card_subset_eq)
    then have "property cur k = property new k" for k
      using le by (cases "k \<in> dom (property cur)") (auto simp: map_le_def)
    then have "property cur = property new" by (rule ext)
    with ne show False by simp
  qed
qed


lemma render_fx_mounted:
  assumes "stores_cell h = Some (cur, d)"
  shows "stores_cell (fst (useReadonlyStores_fx c ss h)) = Some (cur, d)
       \<and> next_derived (fst (useReadonlyStores_fx c ss h)) = next_derived h
       \<and> derived_stores (fst (useReadonlyStores_fx c ss h)) = derived_stores h
       \<and> calls (fst (useReadonlyStores_fx c ss h)) = calls h
       \<and> next_sub (fst (useReadonlyStores_fx c ss h)) = next_sub h
       \<and> effect_cell (fst (useReadonlyStores_fx c ss h)) = effect_cell h
       \<and> (value_cell h \<noteq> None \<longrightarrow> fst (useReadonlyStores_fx c ss h) = h)"
  using assms by (auto simp: useReadonlyStores_fx_def useReadonlyStore_fx_def split: option.splits)

lemma render_fx_mount:
  assumes "stores_cell h = None"
  shows "stores_cell (fst (useReadonlyStores_fx c ss h)) = Some (ss, Derived (next_derived h))
       \<and> next_derived (fst (useReadonlyStores_fx c ss h)) = Suc (next_derived h)
       \<and> derived_stores (fst (useReadonlyStores_fx c ss h)) (next_derived h) = Some \<lparr>inputs = ss, combiner = (\<lambda>x. x)\<rparr>
       \<and> calls (fst (useReadonlyStores_fx c ss h)) = calls h
       \<and> next_sub (fst (useReadonlyStores_fx c ss h)) = next_sub h
       \<and> effect_cell (fst (useReadonlyStores_fx c ss h)) = effect_cell h
       \<and> (value_cell h = None \<longrightarrow> snd (useReadonlyStores_fx c ss h) = Bundle (map_collection c ss)
             \<and> value_cell (fst (useReadonlyStores_fx c ss h)) = Some (Bundle (map_collection c ss)))"
  using assms
  by (auto simp: useReadonlyStores_fx_def useReadonlyStore_fx_def makeDerivedStore_def Let_def
      content_def derived_content_def split: option.splits)

lemma commit_fx_derived:
  assumes "stores_cell h = Some (cur, d)"
  shows "next_derived (commit_fx c ss h) = next_derived h + (if entries_changed cur ss then 1 else 0)
       \<and> (\<exists>x d'. stores_cell (commit_fx c ss h) = Some (x, d')
              \<and> (if entries_changed cur ss then x = ss else x = cur \<and> d' = d))"
  using assms
  by (auto simp: commit_fx_def store_effect_def stores_effect_def store_cleanup_def makeDerivedStore_def Let_def
      split: option.splits)



lemma value_cell_commit:
  "value_cell h \<noteq> None \<Longrightarrow> value_cell (commit_fx c ss h) \<noteq> None"
  by (auto simp: commit_fx_def store_effect_def stores_effect_def store_cleanup_def makeDerivedStore_def Let_def
      split: option.splits)

lemma value_cell_render: "value_cell (fst (useReadonlyStores_fx c ss h)) \<noteq> None"
  by (auto simp: useReadonlyStores_fx_def useReadonlyStore_fx_def makeDerivedStore_def Let_def split_beta
      split: option.splits)

text \<open>After a round with collection \<open>a\<close>, the state holds a collection with the entries of \<open>a\<close>.\<close>

lemma round_fx_cell:
  assumes ok: "fx_ok h" and wf: "well_formed a"
  shows "\<exists>x d. stores_cell (round_fx c a h) = Some (x, d) \<and> well_formed x \<and> property x = property a
        \<and> value_cell (round_fx c a h) \<noteq> None"
proof -
  let ?h1 = "fst (useReadonlyStores_fx c a h)"
  obtain cur d where cell: "stores_cell ?h1 = Some (cur, d)" and wfc: "well_formed cur"
  proof (cases "stores_cell h")
    case None
    from render_fx_mount[OF None, of c a] wf that show ?thesis by blast
  next
    case (Some p)
    obtain cur d where p: "p = (cur, d)" by (cases p)
    from ok Some p have "well_formed cur" by (simp add: fx_ok_def)
    with render_fx_mounted[OF Some[unfolded p], of c a] that show ?thesis by blast
  qed
  have first: "stores_cell h = None \<Longrightarrow> cur = a"
    using render_fx_mount[of h c a] cell by simp
  from commit_fx_derived[OF cell, of c a]
  obtain x d' where x: "stores_cell (commit_fx c a ?h1) = Some (x, d')"
      "if entries_changed cur a then x = a else x = cur \<and> d' = d"
    by blast
  have "well_formed x \<and> property x = property a"
  proof (cases "entries_changed cur a")
    case True
    with x wf show ?thesis by simp
  next
    case False
    with x have "x = cur" by simp
    with False wfc show ?thesis by (simp add: entries_changed_iff[OF wfc wf])
  qed
  moreover have "value_cell (commit_fx c a ?h1) \<noteq> None"
    by (rule value_cell_commit[OF value_cell_render])
  ultimately show ?thesis using x by (simp add: round_fx_def)
qed

lemma round_fx_ok: "fx_ok h \<Longrightarrow> well_formed a \<Longrightarrow> fx_ok (round_fx c a h)"
  using round_fx_cell[of h a c] by (auto simp: fx_ok_def)





section \<open>The claims about useReadonlyStores\<close>





subsection \<open>The ref version over renders and store mutations\<close>

lemma listener_world [simp]:
  "derived_stores (listener sid v h) = derived_stores h"
  "next_derived (listener sid v h) = next_derived h"
  by (auto simp: listener_def setRerenderFlag_def split: option.splits)

lemma listener_previousContextRef [simp]:
  "previousContextRef (listener sid v h) = previousContextRef h"
  by (auto simp: listener_def setRerenderFlag_def split: option.splits)














subsection \<open>The version kept in state and effects over renders and store mutations\<close>



lemma foldl_listener_fx_fields [simp]:
  "calls (foldl (\<lambda>h' sid. listener_fx v h') h xs) = calls h"
  "next_sub (foldl (\<lambda>h' sid. listener_fx v h') h xs) = next_sub h"
  "derived_stores (foldl (\<lambda>h' sid. listener_fx v h') h xs) = derived_stores h"
  "next_derived (foldl (\<lambda>h' sid. listener_fx v h') h xs) = next_derived h"
  "stores_cell (foldl (\<lambda>h' sid. listener_fx v h') h xs) = stores_cell h"
  "effect_cell (foldl (\<lambda>h' sid. listener_fx v h') h xs) = effect_cell h"
  by (induction xs arbitrary: h) (simp_all add: listener_fx_def)

lemma deliver_fx_fields [simp]:
  "calls (deliver_fx s v h) = calls h"
  "next_sub (deliver_fx s v h) = next_sub h"
  "derived_stores (deliver_fx s v h) = derived_stores h"
  "next_derived (deliver_fx s v h) = next_derived h"
  "stores_cell (deliver_fx s v h) = stores_cell h"
  "effect_cell (deliver_fx s v h) = effect_cell h"
  by (simp_all add: deliver_fx_def)































subsection \<open>The value the hook returns\<close>




subsection \<open>An empty collection\<close>




end
